theory Spec2Isabelle
  imports Main
begin

section \<open>The environment of the duplicate-file manager\<close>

text \<open>
  The development embeds \<^verbatim>\<open>src/Python/advanced_file_manager.py\<close>: the fingerprint
  computation \<^verbatim>\<open>get_file_hash\<close>, the detector \<^verbatim>\<open>find_duplicate_files\<close> and the
  disposition loop \<^verbatim>\<open>manage_duplicate_files\<close>. The operating system and the standard
  library are the environment: what \<^verbatim>\<open>os.walk\<close>, \<^verbatim>\<open>os.path.getsize\<close>, \<^verbatim>\<open>open\<close>,
  \<^verbatim>\<open>read\<close>, \<^verbatim>\<open>os.remove\<close>, \<^verbatim>\<open>os.makedirs\<close>, \<^verbatim>\<open>shutil.move\<close> and
  \<^verbatim>\<open>datetime.now\<close> answer is a parameter, and every exception they raise is a value.
\<close>

type_synonym path = string
type_synonym bytes = string
type_synonym digest = string

text \<open>
  The exceptions of the model. All of them are subclasses of \<^verbatim>\<open>OSError\<close> (in Python 3
  \<^verbatim>\<open>IOError\<close> is the same class, and \<^verbatim>\<open>shutil.Error\<close> derives from it), so a clause
  \<^verbatim>\<open>except OSError\<close> or \<^verbatim>\<open>except IOError\<close> catches each of them, while
  \<^verbatim>\<open>except shutil.Error\<close> catches \<open>ShutilError\<close> alone.
\<close>

datatype exn =
    FileNotFoundError
  | PermissionError
  | IsADirectoryError
  | FileExistsError
  | IOFault
  | ShutilError

text \<open>What the program prints, and the trace of a scan: the files it opens and its prints.\<close>

datatype message =
    ScanStart path
  | ReadError exn
  | AccessError exn
  | NoDuplicates
  | FoundPairs nat
  | PairHeader nat
  | OriginalLabel path
  | DuplicateLabel path
  | Deleted path
  | DeleteError exn
  | Moved path
  | MoveError exn

datatype event = OpenRb path | Print message

text \<open>
  An open file: the bytes not yet read, and the offset (from the read position) of a byte
  the device cannot deliver, if there is one. A read that reaches that byte raises.
\<close>

record handle =
  pending :: bytes
  bad_at :: "nat option"

text \<open>
  The file system a scan reads. \<open>listing\<close> is the sequence of
  \<^verbatim>\<open>(dirpath, dirnames, filenames)\<close> triples \<^verbatim>\<open>os.walk\<close> yields for a directory;
  \<open>stat_size\<close> is \<^verbatim>\<open>os.path.getsize\<close>; \<open>opens\<close> is \<^verbatim>\<open>open(p, 'rb')\<close>;
  \<open>digest_of\<close> is the hash function \<^verbatim>\<open>hashlib\<close> computes under an algorithm name.
\<close>

record env =
  is_dir :: "path \<Rightarrow> bool"
  listing :: "path \<Rightarrow> (path \<times> path list \<times> path list) list"
  stat_size :: "path \<Rightarrow> exn + nat"
  opens :: "path \<Rightarrow> exn + handle"
  digest_of :: "string \<Rightarrow> bytes \<Rightarrow> digest"

text \<open>
  \<^verbatim>\<open>os.walk(top)\<close> with its default \<^verbatim>\<open>onerror=None\<close>: the error of listing a top
  that does not exist or is not a directory is ignored, and the walk yields nothing.
\<close>

definition os_walk :: "env \<Rightarrow> path \<Rightarrow> (path \<times> path list \<times> path list) list" where
  "os_walk e root = (if is_dir e root then listing e root else [])"

definition os_path_join :: "path \<Rightarrow> path \<Rightarrow> path" where
  "os_path_join a p =
     (if take 1 p = ''/'' then p
      else if a = [] \<or> last a = CHR ''/'' then a @ p
      else a @ ''/'' @ p)"

definition os_path_basename :: "path \<Rightarrow> path" where
  "os_path_basename p = rev (takeWhile (\<lambda>c. c \<noteq> CHR ''/'') (rev p))"

definition os_path_getsize :: "env \<Rightarrow> path \<Rightarrow> exn + nat" where
  "os_path_getsize e p = stat_size e p"

section \<open>The fingerprint computation\<close>

text \<open>
  A \<^verbatim>\<open>hashlib\<close> object: the algorithm and the bytes fed so far. \<^verbatim>\<open>update\<close> appends,
  and \<^verbatim>\<open>hexdigest\<close> is the digest of everything fed (hashlib's contract: repeated
  updates are one update with the concatenation). \<^verbatim>\<open>hashlib.new\<close> raises
  \<^verbatim>\<open>ValueError\<close> on a name it does not know; every call in the repository passes the
  default \<^verbatim>\<open>'sha256'\<close>, which hashlib always provides, so the digest is total here.
\<close>

record hasher =
  algorithm :: string
  fed :: bytes

definition hashlib_new :: "string \<Rightarrow> hasher" where
  "hashlib_new hash_algorithm = \<lparr>algorithm = hash_algorithm, fed = []\<rparr>"

definition hasher_update :: "hasher \<Rightarrow> bytes \<Rightarrow> hasher" where
  "hasher_update h chunk = h\<lparr>fed := fed h @ chunk\<rparr>"

definition hexdigest :: "env \<Rightarrow> hasher \<Rightarrow> digest" where
  "hexdigest e h = digest_of e (algorithm h) (fed h)"

text \<open>\<^verbatim>\<open>f.read(n)\<close>: at most \<open>n\<close> bytes, empty at the end of the file.\<close>

definition fread :: "handle \<Rightarrow> nat \<Rightarrow> exn + (bytes \<times> handle)" where
  "fread f n =
     (let chunk = take n (pending f) in
      case bad_at f of
        None \<Rightarrow> Inr (chunk, f\<lparr>pending := drop n (pending f)\<rparr>)
      | Some b \<Rightarrow>
          if b < length chunk then Inl IOFault
          else Inr (chunk, f\<lparr>pending := drop n (pending f), bad_at := Some (b - n)\<rparr>))"

text \<open>
  \<^verbatim>\<open>while chunk := f.read(8192): hasher.update(chunk)\<close>. The loop ends at the first empty
  chunk; each other round shortens what is pending.
\<close>

function read_loop :: "handle \<Rightarrow> hasher \<Rightarrow> exn + hasher" where
  "read_loop f h =
     (case fread f 8192 of
        Inl e \<Rightarrow> Inl e
      | Inr (chunk, f') \<Rightarrow>
          if chunk = [] then Inr h else read_loop f' (hasher_update h chunk))"
  by pat_completeness auto
termination
  by (relation "measure (\<lambda>(f, h). length (pending f))")
     (auto simp: fread_def Let_def split: option.splits if_splits)

declare read_loop.simps [simp del]

text \<open>
  \<^verbatim>\<open>get_file_hash\<close>: the result is the hex digest, or \<^verbatim>\<open>None\<close> after the handler of
  \<^verbatim>\<open>except IOError\<close> has printed the error. The second component is what the call
  does besides: it opens the file, and prints in the handler.
\<close>

definition get_file_hash :: "env \<Rightarrow> path \<Rightarrow> string \<Rightarrow> digest option \<times> event list" where
  "get_file_hash e filepath hash_algorithm =
     (let hasher = hashlib_new hash_algorithm in
      case opens e filepath of
        Inl err \<Rightarrow> (None, [OpenRb filepath, Print (ReadError err)])
      | Inr f \<Rightarrow>
          (case read_loop f hasher of
             Inl err \<Rightarrow> (None, [OpenRb filepath, Print (ReadError err)])
           | Inr hasher' \<Rightarrow> (Some (hexdigest e hasher'), [OpenRb filepath])))"

section \<open>The detector\<close>

text \<open>
  The state of \<^verbatim>\<open>find_duplicate_files\<close>: the dictionary \<^verbatim>\<open>file_hashes\<close> from a size
  to a dictionary from a fingerprint (or \<^verbatim>\<open>None\<close>) to a path, the list
  \<^verbatim>\<open>duplicates\<close>, and the trace so far.
\<close>

record scan_state =
  file_hashes :: "nat \<rightharpoonup> (digest option \<rightharpoonup> path)"
  duplicates :: "(path \<times> path) list"
  trace :: "event list"

text \<open>The body of the inner loop (lines 26 to 39), for one \<^verbatim>\<open>full_path\<close>.\<close>

definition scan_file :: "env \<Rightarrow> scan_state \<Rightarrow> path \<Rightarrow> scan_state" where
  "scan_file e st full_path =
     (case os_path_getsize e full_path of
        Inl err \<Rightarrow> st\<lparr>trace := trace st @ [Print (AccessError err)]\<rparr>
      | Inr file_size \<Rightarrow>
          (case file_hashes st file_size of
             Some bucket \<Rightarrow>
               (let (current_hash, evs) = get_file_hash e full_path ''sha256'' in
                if current_hash \<noteq> None \<and> bucket current_hash \<noteq> None
                then st\<lparr>duplicates := duplicates st @ [(full_path, the (bucket current_hash))],
                        trace := trace st @ evs\<rparr>
                else st\<lparr>file_hashes := (file_hashes st)(file_size \<mapsto> bucket(current_hash \<mapsto> full_path)),
                        trace := trace st @ evs\<rparr>)
           | None \<Rightarrow>
               (let (current_hash, evs) = get_file_hash e full_path ''sha256'' in
                st\<lparr>file_hashes := (file_hashes st)(file_size \<mapsto> [current_hash \<mapsto> full_path]),
                    trace := trace st @ evs\<rparr>)))"

definition scan_start :: "path \<Rightarrow> scan_state" where
  "scan_start directory =
     \<lparr>file_hashes = Map.empty, duplicates = [], trace = [Print (ScanStart directory)]\<rparr>"

text \<open>The two nested loops over \<^verbatim>\<open>os.walk(directory)\<close>, and the state they end in.\<close>

definition scan :: "env \<Rightarrow> path \<Rightarrow> scan_state" where
  "scan e directory =
     foldl (\<lambda>st (dirpath, dirnames, filenames).
              foldl (\<lambda>st' filename. scan_file e st' (os_path_join dirpath filename)) st filenames)
       (scan_start directory) (os_walk e directory)"

definition find_duplicate_files :: "env \<Rightarrow> path \<Rightarrow> (path \<times> path) list" where
  "find_duplicate_files e directory = duplicates (scan e directory)"

section \<open>The disposition loop\<close>

text \<open>
  The world \<^verbatim>\<open>manage_duplicate_files\<close> acts on: the regular files and the directories
  that exist, the entries the process may not remove or rename, the clock (the \<open>n\<close>-th
  reading of \<^verbatim>\<open>datetime.now().strftime("%Y%m%d_%H%M%S")\<close>), the number of readings
  taken, and what has been printed.
\<close>

record world =
  files :: "path set"
  dirs :: "path set"
  locked :: "path set"
  clock :: "nat \<Rightarrow> string"
  ticks :: nat
  out :: "message list"

definition print_msgs :: "world \<Rightarrow> message list \<Rightarrow> world" where
  "print_msgs w ms = w\<lparr>out := out w @ ms\<rparr>"

definition os_path_exists :: "world \<Rightarrow> path \<Rightarrow> bool" where
  "os_path_exists w p = (p \<in> files w \<or> p \<in> dirs w)"

definition os_remove :: "world \<Rightarrow> path \<Rightarrow> exn + world" where
  "os_remove w p =
     (if p \<in> dirs w then Inl IsADirectoryError
      else if p \<notin> files w then Inl FileNotFoundError
      else if p \<in> locked w then Inl PermissionError
      else Inr (w\<lparr>files := files w - {p}\<rparr>))"

text \<open>\<^verbatim>\<open>os.makedirs(name)\<close> with the default \<^verbatim>\<open>exist_ok=False\<close>.\<close>

definition os_makedirs :: "world \<Rightarrow> path \<Rightarrow> exn + world" where
  "os_makedirs w d =
     (if os_path_exists w d then Inl FileExistsError
      else Inr (w\<lparr>dirs := insert d (dirs w)\<rparr>))"

text \<open>
  \<^verbatim>\<open>os.rename\<close> as \<^verbatim>\<open>shutil.move\<close> uses it, over a flat name space: a source that
  does not exist raises \<^verbatim>\<open>FileNotFoundError\<close>, a locked one \<^verbatim>\<open>PermissionError\<close>.
\<close>

definition os_rename :: "world \<Rightarrow> path \<Rightarrow> path \<Rightarrow> exn + world" where
  "os_rename w src dst =
     (if src \<notin> files w \<and> src \<notin> dirs w then Inl FileNotFoundError
      else if src \<in> locked w then Inl PermissionError
      else if src \<in> files w then Inr (w\<lparr>files := insert dst (files w - {src})\<rparr>)
      else Inr (w\<lparr>dirs := insert dst (dirs w - {src})\<rparr>))"

text \<open>
  \<^verbatim>\<open>shutil.move(src, dst)\<close>: into \<open>dst\<close> when it is a directory, where an entry of the
  source's name raises \<^verbatim>\<open>shutil.Error\<close>; every other failure is the \<^verbatim>\<open>OSError\<close> of
  the rename.
\<close>

definition shutil_move :: "world \<Rightarrow> path \<Rightarrow> path \<Rightarrow> exn + world" where
  "shutil_move w src dst =
     (if dst \<in> dirs w then
        (let real_dst = os_path_join dst (os_path_basename src) in
         if os_path_exists w real_dst then Inl ShutilError else os_rename w src real_dst)
      else os_rename w src dst)"

definition datetime_now_strftime :: "world \<Rightarrow> string \<times> world" where
  "datetime_now_strftime w = (clock w (ticks w), w\<lparr>ticks := Suc (ticks w)\<rparr>)"

text \<open>
  One round of the loop (lines 50 to 70) for the pair \<^verbatim>\<open>(path1, path2)\<close> at index
  \<open>i\<close>. The result is the world after the round, or the exception that leaves the
  function together with the world at that moment. The handler of the delete branch is
  \<^verbatim>\<open>except OSError\<close>, which catches every exception of the model; the handler of the
  move branch is \<^verbatim>\<open>except shutil.Error\<close>; \<^verbatim>\<open>os.makedirs\<close> stands outside the
  \<^verbatim>\<open>try\<close>.
\<close>

definition dispose_pair :: "world \<Rightarrow> string \<Rightarrow> nat \<Rightarrow> path \<Rightarrow> path \<Rightarrow> (exn \<times> world) + world" where
  "dispose_pair w action i path1 path2 =
     (let w1 = print_msgs w [PairHeader (i + 1), OriginalLabel path1, DuplicateLabel path2] in
      if action = ''delete'' then
        (case os_remove w1 path2 of
           Inr w2 \<Rightarrow> Inr (print_msgs w2 [Deleted path2])
         | Inl err \<Rightarrow> Inr (print_msgs w1 [DeleteError err]))
      else if action = ''move'' then
        (let (timestamp, w2) = datetime_now_strftime w1;
             move_dir = ''duplicates_'' @ timestamp in
         case (if \<not> os_path_exists w2 move_dir then os_makedirs w2 move_dir else Inr w2) of
           Inl err \<Rightarrow> Inl (err, w2)
         | Inr w3 \<Rightarrow>
             (case shutil_move w3 path2 (os_path_join move_dir (os_path_basename path2)) of
                Inr w4 \<Rightarrow> Inr (print_msgs w4 [Moved move_dir])
              | Inl err \<Rightarrow>
                  if err = ShutilError then Inr (print_msgs w3 [MoveError err])
                  else Inl (err, w3)))
      else Inr w1)"

fun dispose_loop :: "world \<Rightarrow> string \<Rightarrow> nat \<Rightarrow> (path \<times> path) list \<Rightarrow> (exn \<times> world) + world" where
  "dispose_loop w action i [] = Inr w"
| "dispose_loop w action i ((path1, path2) # rest) =
     (case dispose_pair w action i path1 path2 of
        Inl x \<Rightarrow> Inl x
      | Inr w' \<Rightarrow> dispose_loop w' action (i + 1) rest)"

definition manage_duplicate_files :: "world \<Rightarrow> (path \<times> path) list \<Rightarrow> string \<Rightarrow> (exn \<times> world) + world" where
  "manage_duplicate_files w duplicates_list action =
     (if duplicates_list = [] then Inr (print_msgs w [NoDuplicates])
      else dispose_loop (print_msgs w [FoundPairs (length duplicates_list)]) action 0 duplicates_list)"

text \<open>What a run leaves behind, whether it returned or raised.\<close>

definition final_world :: "(exn \<times> world) + world \<Rightarrow> world" where
  "final_world r = (case r of Inl (err, w) \<Rightarrow> w | Inr w \<Rightarrow> w)"

definition raised :: "(exn \<times> world) + world \<Rightarrow> exn option" where
  "raised r = (case r of Inl (err, w) \<Rightarrow> Some err | Inr w \<Rightarrow> None)"

section \<open>Notions the properties are stated with\<close>

text \<open>
  A handle is faulty when the unreadable byte lies within what is pending. \<open>read_all\<close> is
  what reading a file to its end gives: its bytes, or the error of the open or of the read.
\<close>

definition faulty :: "handle \<Rightarrow> bool" where
  "faulty f = (case bad_at f of None \<Rightarrow> False | Some b \<Rightarrow> b < length (pending f))"

definition read_all :: "env \<Rightarrow> path \<Rightarrow> exn + bytes" where
  "read_all e p =
     (case opens e p of
        Inl err \<Rightarrow> Inl err
      | Inr f \<Rightarrow> if faulty f then Inl IOFault else Inr (pending f))"

definition content_of :: "env \<Rightarrow> path \<Rightarrow> bytes option" where
  "content_of e p = (case read_all e p of Inl err \<Rightarrow> None | Inr c \<Rightarrow> Some c)"

text \<open>
  The fingerprint the detector obtains for a path, and the key under which a path is
  classified: its size and fingerprint, when both are obtained.
\<close>

definition fingerprint :: "env \<Rightarrow> path \<Rightarrow> digest option" where
  "fingerprint e p = fst (get_file_hash e p ''sha256'')"

definition key :: "env \<Rightarrow> path \<Rightarrow> (nat \<times> digest) option" where
  "key e p =
     (case os_path_getsize e p of
        Inl err \<Rightarrow> None
      | Inr s \<Rightarrow> (case fingerprint e p of None \<Rightarrow> None | Some h \<Rightarrow> Some (s, h)))"

text \<open>What one round of the scan adds to the trace.\<close>

definition file_events :: "env \<Rightarrow> path \<Rightarrow> event list" where
  "file_events e p =
     (case os_path_getsize e p of
        Inl err \<Rightarrow> [Print (AccessError err)]
      | Inr s \<Rightarrow> snd (get_file_hash e p ''sha256''))"


text \<open>
  \<^verbatim>\<open>file_hashes[s][k]\<close> when both keys are present, and the index restricted to the
  fingerprints that are not \<^verbatim>\<open>None\<close>.
\<close>

definition lookup :: "scan_state \<Rightarrow> nat \<Rightarrow> digest option \<Rightarrow> path option" where
  "lookup st s k = (case file_hashes st s of None \<Rightarrow> None | Some bucket \<Rightarrow> bucket k)"

definition index_of :: "scan_state \<Rightarrow> nat \<times> digest \<Rightarrow> path option" where
  "index_of st = (\<lambda>(s, h). lookup st s (Some h))"

text \<open>The paths of a walk, in the order the two loops visit them.\<close>

definition walk_paths :: "env \<Rightarrow> path \<Rightarrow> path list" where
  "walk_paths e directory =
     concat (map (\<lambda>(dirpath, dirnames, filenames). map (os_path_join dirpath) filenames)
               (os_walk e directory))"

text \<open>
  The detector over a one-level index from (size, fingerprint) to the first path seen:
  the pairs it emits and the index it ends with. The loop of the code is shown below to
  compute exactly these (\<open>foldl_scan_duplicates\<close>, \<open>foldl_scan_index\<close>), and the
  properties of the pairs are proved on this form.
\<close>

fun emitted :: "env \<Rightarrow> (nat \<times> digest \<rightharpoonup> path) \<Rightarrow> path list \<Rightarrow> (path \<times> path) list" where
  "emitted e ix [] = []"
| "emitted e ix (p # ps) =
     (case key e p of
        None \<Rightarrow> emitted e ix ps
      | Some k \<Rightarrow>
          (case ix k of
             Some q \<Rightarrow> (p, q) # emitted e ix ps
           | None \<Rightarrow> emitted e (ix(k \<mapsto> p)) ps))"

fun indexed :: "env \<Rightarrow> (nat \<times> digest \<rightharpoonup> path) \<Rightarrow> path list \<Rightarrow> (nat \<times> digest \<rightharpoonup> path)" where
  "indexed e ix [] = ix"
| "indexed e ix (p # ps) =
     (case key e p of
        None \<Rightarrow> indexed e ix ps
      | Some k \<Rightarrow>
          (case ix k of
             Some q \<Rightarrow> indexed e ix ps
           | None \<Rightarrow> indexed e (ix(k \<mapsto> p)) ps))"

text \<open>
  The files of a walk that have size \<open>s\<close> and read back as the bytes \<open>c\<close>, in walk
  order; and the walks on which the digest separates contents: two files with the same
  fingerprint have the same content.
\<close>

definition content_group :: "env \<Rightarrow> path \<Rightarrow> nat \<Rightarrow> bytes \<Rightarrow> path list" where
  "content_group e directory s c =
     filter (\<lambda>p. os_path_getsize e p = Inr s \<and> content_of e p = Some c) (walk_paths e directory)"

definition collision_free :: "env \<Rightarrow> path \<Rightarrow> bool" where
  "collision_free e directory =
     (\<forall>p \<in> set (walk_paths e directory). \<forall>q \<in> set (walk_paths e directory).
        fingerprint e p = fingerprint e q \<longrightarrow> content_of e p = content_of e q)"

section \<open>Concrete file systems\<close>

text \<open>
  A directory \<open>d\<close> with an unreadable file \<open>u\<close> of five bytes, two files \<open>a\<close> and
  \<open>b\<close> that both hold \<open>hello\<close>, and a file \<open>c\<close> that holds \<open>world!\<close>, walked in
  this order. The digest of these examples is the identity.
\<close>

definition demo_env :: env where
  "demo_env =
     \<lparr>is_dir = (\<lambda>p. p = ''d''),
      listing = (\<lambda>p. [(''d'', [], [''u'', ''a'', ''b'', ''c''])]),
      stat_size = (\<lambda>p. if p = ''d/u'' \<or> p = ''d/a'' \<or> p = ''d/b'' then Inr 5
                         else if p = ''d/c'' then Inr 6 else Inl FileNotFoundError),
      opens = (\<lambda>p. if p = ''d/a'' \<or> p = ''d/b'' then Inr \<lparr>pending = ''hello'', bad_at = None\<rparr>
                     else if p = ''d/c'' then Inr \<lparr>pending = ''world!'', bad_at = None\<rparr>
                     else if p = ''d/u'' then Inl PermissionError
                     else Inl FileNotFoundError),
      digest_of = (\<lambda>alg c. c)\<rparr>"


text \<open>
  A directory \<open>d\<close> with three files \<open>a\<close>, \<open>b\<close> and \<open>c\<close> that hold \<open>hello\<close> and
  a file \<open>x\<close> of the same size that holds \<open>world\<close>, walked in the order \<open>a\<close>,
  \<open>x\<close>, \<open>b\<close>, \<open>c\<close>.
\<close>

definition trio_env :: env where
  "trio_env =
     \<lparr>is_dir = (\<lambda>p. p = ''d''),
      listing = (\<lambda>p. [(''d'', [], [''a'', ''x'', ''b'', ''c''])]),
      stat_size = (\<lambda>p. if p = ''d/a'' \<or> p = ''d/x'' \<or> p = ''d/b'' \<or> p = ''d/c'' then Inr 5
                         else Inl FileNotFoundError),
      opens = (\<lambda>p. if p = ''d/a'' \<or> p = ''d/b'' \<or> p = ''d/c''
                       then Inr \<lparr>pending = ''hello'', bad_at = None\<rparr>
                     else if p = ''d/x'' then Inr \<lparr>pending = ''world'', bad_at = None\<rparr>
                     else Inl FileNotFoundError),
      digest_of = (\<lambda>alg c. c)\<rparr>"

text \<open>A root that does not exist: nothing is a directory, and every access fails.\<close>

definition void_env :: env where
  "void_env =
     \<lparr>is_dir = (\<lambda>p. False),
      listing = (\<lambda>p. []),
      stat_size = (\<lambda>p. Inl FileNotFoundError),
      opens = (\<lambda>p. Inl FileNotFoundError),
      digest_of = (\<lambda>alg c. c)\<rparr>"

text \<open>The state of the scan after the paths \<open>xs\<close>, a prefix of the walk.\<close>

definition scan_prefix :: "env \<Rightarrow> path \<Rightarrow> path list \<Rightarrow> scan_state" where
  "scan_prefix e directory xs = foldl (scan_file e) (scan_start directory) xs"

text \<open>
  Worlds for the disposition loop. The first holds the files of the demonstration
  directory under a clock that stands still. In the second the clock moves on by one
  second after its first reading. In the third the file \<open>d/a\<close> of a pair has
  disappeared since the scan.
\<close>

definition demo_world :: world where
  "demo_world =
     \<lparr>files = {''d/u'', ''d/a'', ''d/b'', ''d/c''},
      dirs = {''d''},
      locked = {},
      clock = (\<lambda>n. ''20240101_120000''),
      ticks = 0,
      out = []\<rparr>"

definition ticking_world :: world where
  "ticking_world =
     \<lparr>files = {''d/a'', ''d/b'', ''d/x'', ''d/y''},
      dirs = {''d''},
      locked = {},
      clock = (\<lambda>n. if n = 0 then ''20240101_120000'' else ''20240101_120001''),
      ticks = 0,
      out = []\<rparr>"

definition gone_world :: world where
  "gone_world =
     \<lparr>files = {''d/b'', ''d/x'', ''d/y''},
      dirs = {''d''},
      locked = {},
      clock = (\<lambda>n. ''20240101_120000''),
      ticks = 0,
      out = []\<rparr>"

text \<open>The files of the directory of three identical files, under a clock that stands still.\<close>

definition trio_world :: world where
  "trio_world =
     \<lparr>files = {''d/a'', ''d/x'', ''d/b'', ''d/c''},
      dirs = {''d''},
      locked = {},
      clock = (\<lambda>n. ''20240101_120000''),
      ticks = 0,
      out = []\<rparr>"

section \<open>The fingerprint loop and the scan, characterised\<close>

lemma read_loop_eq:
  "read_loop f h = (if faulty f then Inl IOFault else Inr (h\<lparr>fed := fed h @ pending f\<rparr>))"
proof (induction f h rule: read_loop.induct)
  case (1 f h)
  show ?case
  proof (cases "fread f 8192")
    case (Inl e)
    then show ?thesis
      by (subst read_loop.simps)
         (auto simp: fread_def Let_def faulty_def split: option.splits if_splits)
  next
    case (Inr r)
    obtain chunk f' where r: "r = (chunk, f')" by (cases r)
    show ?thesis
    proof (cases "chunk = []")
      case True
      with Inr r show ?thesis
        by (subst read_loop.simps)
           (auto simp: fread_def Let_def faulty_def split: option.splits if_splits)
    next
      case False
      have ih: "read_loop f' (hasher_update h chunk) =
          (if faulty f' then Inl IOFault
           else Inr ((hasher_update h chunk)\<lparr>fed := fed (hasher_update h chunk) @ pending f'\<rparr>))"
        using "1.IH" Inr r False by simp
      have c: "chunk = take 8192 (pending f)" and p: "pending f' = drop 8192 (pending f)"
        using Inr r by (auto simp: fread_def Let_def split: option.splits if_splits)
      have fl: "faulty f' = faulty f"
        using Inr r False
        by (auto simp: fread_def Let_def faulty_def split: option.splits if_splits)
      have "read_loop f h = read_loop f' (hasher_update h chunk)"
        using Inr r False by (subst read_loop.simps) simp
      then show ?thesis
        using ih c p fl by (simp add: hasher_update_def)
    qed
  qed
qed

lemma get_file_hash_eq:
  "get_file_hash e p alg =
     (case opens e p of
        Inl err \<Rightarrow> (None, [OpenRb p, Print (ReadError err)])
      | Inr f \<Rightarrow>
          if faulty f then (None, [OpenRb p, Print (ReadError IOFault)])
          else (Some (digest_of e alg (pending f)), [OpenRb p]))"
  by (simp add: get_file_hash_def read_loop_eq hashlib_new_def hexdigest_def split: sum.splits)

lemma scan_file_trace: "trace (scan_file e st p) = trace st @ file_events e p"
  by (auto simp: scan_file_def file_events_def split: sum.splits option.splits prod.splits)

lemma scan_file_duplicates:
  "duplicates (scan_file e st p) =
     duplicates st @
       (case key e p of
          None \<Rightarrow> []
        | Some k \<Rightarrow> (case index_of st k of None \<Rightarrow> [] | Some q \<Rightarrow> [(p, q)]))"
  by (auto simp: scan_file_def key_def index_of_def lookup_def fingerprint_def
           split: sum.splits option.splits prod.splits)

lemma scan_file_index:
  "index_of (scan_file e st p) =
     (case key e p of
        None \<Rightarrow> index_of st
      | Some k \<Rightarrow> (case index_of st k of None \<Rightarrow> (index_of st)(k \<mapsto> p) | Some q \<Rightarrow> index_of st))"
  by (rule ext)
     (auto simp: scan_file_def key_def index_of_def lookup_def fingerprint_def
           split: sum.splits option.splits prod.splits)

lemma scan_file_lookup_None:
  "lookup (scan_file e st p) s None =
     (if os_path_getsize e p = Inr s \<and> fingerprint e p = None then Some p else lookup st s None)"
  by (auto simp: scan_file_def lookup_def fingerprint_def
           split: sum.splits option.splits prod.splits)

lemma foldl_scan_trace:
  "trace (foldl (scan_file e) st ps) = trace st @ concat (map (file_events e) ps)"
  by (induction ps arbitrary: st) (simp_all add: scan_file_trace)

lemma foldl_scan_duplicates:
  "duplicates (foldl (scan_file e) st ps) = duplicates st @ emitted e (index_of st) ps"
  by (induction ps arbitrary: st)
     (auto simp: scan_file_duplicates scan_file_index split: option.splits)

lemma foldl_scan_index:
  "index_of (foldl (scan_file e) st ps) = indexed e (index_of st) ps"
  by (induction ps arbitrary: st)
     (auto simp: scan_file_index split: option.splits)

lemma scan_walk:
  "scan e directory = foldl (scan_file e) (scan_start directory) (walk_paths e directory)"
proof -
  have "\<And>st. foldl (\<lambda>st (dirpath, dirnames, filenames).
              foldl (\<lambda>st' filename. scan_file e st' (os_path_join dirpath filename)) st filenames)
            st ws
        = foldl (scan_file e) st
            (concat (map (\<lambda>(dirpath, dirnames, filenames). map (os_path_join dirpath) filenames) ws))"
    for ws
    by (induction ws) (auto simp: foldl_map)
  then show ?thesis by (simp add: scan_def walk_paths_def)
qed

lemma indexed_eq:
  "indexed e ix ps k = (case ix k of Some q \<Rightarrow> Some q | None \<Rightarrow> find (\<lambda>p. key e p = Some k) ps)"
  by (induction ps arbitrary: ix) (auto split: option.splits)

lemma emitted_fst_subset: "fst ` set (emitted e ix ps) \<subseteq> set ps"
  by (induction ps arbitrary: ix) (auto split: option.splits)

lemma emitted_keys:
  "(d, orig) \<in> set (emitted e ix ps) \<Longrightarrow>
     \<exists>k. key e d = Some k \<and> indexed e ix ps k = Some orig"
proof (induction ps arbitrary: ix)
  case Nil
  then show ?case by simp
next
  case (Cons p ps)
  show ?case
  proof (cases "key e p")
    case None
    with Cons show ?thesis by simp
  next
    case (Some k)
    show ?thesis
    proof (cases "ix k")
      case None
      with Some Cons show ?thesis by simp
    next
      case (Some q)
      show ?thesis
      proof (cases "(d, orig) = (p, q)")
        case True
        with \<open>key e p = Some k\<close> Some show ?thesis by (simp add: indexed_eq)
      next
        case False
        then have "(d, orig) \<in> set (emitted e ix ps)"
          using Cons.prems \<open>key e p = Some k\<close> Some by auto
        from Cons.IH [OF this] show ?thesis
          using \<open>key e p = Some k\<close> Some by simp
      qed
    qed
  qed
qed

lemma find_key: "find (\<lambda>p. key e p = Some k) ps = Some q \<Longrightarrow> q \<in> set ps \<and> key e q = Some k"
  by (induction ps) (auto split: if_splits)


lemma emitted_group:
  "filter (\<lambda>(d, orig). key e d = Some k) (emitted e ix ps) =
     (case ix k of
        Some q \<Rightarrow> map (\<lambda>d. (d, q)) (filter (\<lambda>p. key e p = Some k) ps)
      | None \<Rightarrow> map (\<lambda>d. (d, hd (filter (\<lambda>p. key e p = Some k) ps)))
                      (tl (filter (\<lambda>p. key e p = Some k) ps)))"
  by (induction ps arbitrary: ix) (auto split: option.splits)

lemma emitted_distinct: "distinct ps \<Longrightarrow> distinct (map fst (emitted e ix ps))"
proof (induction ps arbitrary: ix)
  case Nil
  then show ?case by simp
next
  case (Cons p ps)
  have "p \<notin> fst ` set (emitted e ix ps)"
    using Cons.prems emitted_fst_subset [of e ix ps] by auto
  with Cons show ?case by (auto split: option.splits)
qed

lemma emitted_xor_indexed:
  "distinct ps \<Longrightarrow> ran ix \<inter> set ps = {} \<Longrightarrow> p \<in> set ps \<Longrightarrow> key e p = Some k \<Longrightarrow>
     (p \<in> fst ` set (emitted e ix ps)) \<noteq> (indexed e ix ps k = Some p)"
proof (induction ps arbitrary: ix)
  case Nil
  then show ?case by simp
next
  case (Cons x ps)
  show ?case
  proof (cases "key e x")
    case None
    then have "p \<noteq> x" using Cons.prems by auto
    with None Cons show ?thesis by auto
  next
    case (Some k')
    show ?thesis
    proof (cases "ix k'")
      case None
      have r: "ran (ix(k' \<mapsto> x)) \<inter> set ps = {}"
        using Cons.prems None by (simp add: ran_map_upd)
      show ?thesis
      proof (cases "p = x")
        case True
        have "x \<notin> fst ` set (emitted e (ix(k' \<mapsto> x)) ps)"
          using Cons.prems emitted_fst_subset [of e "ix(k' \<mapsto> x)" ps] by auto
        with True Some None Cons.prems show ?thesis by (simp add: indexed_eq)
      next
        case False
        with Some None Cons r show ?thesis by auto
      qed
    next
      case (Some q)
      have "q \<in> ran ix" using Some by (rule ranI)
      then have qx: "q \<noteq> x" using Cons.prems by auto
      have r: "ran ix \<inter> set ps = {}" using Cons.prems by auto
      show ?thesis
      proof (cases "p = x")
        case True
        with \<open>key e x = Some k'\<close> Some qx Cons.prems show ?thesis by (simp add: indexed_eq)
      next
        case False
        with \<open>key e x = Some k'\<close> Some Cons r show ?thesis by auto
      qed
    qed
  qed
qed

lemma emitted_append:
  "emitted e ix (xs @ ys) = emitted e ix xs @ emitted e (indexed e ix xs) ys"
  by (induction xs arbitrary: ix) (auto split: option.splits)

lemma indexed_append: "indexed e ix (xs @ ys) = indexed e (indexed e ix xs) ys"
  by (induction xs arbitrary: ix) (auto split: option.splits)

lemma emitted_skip:
  "key e p = None \<Longrightarrow> emitted e ix (xs @ p # ys) = emitted e ix (xs @ ys)"
  by (simp add: emitted_append)

lemma fingerprint_eq: "fingerprint e p = map_option (digest_of e ''sha256'') (content_of e p)"
  by (simp add: fingerprint_def get_file_hash_eq content_of_def read_all_def split: sum.splits)

lemma demo_walk: "walk_paths demo_env ''d'' = [''d/u'', ''d/a'', ''d/b'', ''d/c'']"
  by (simp add: walk_paths_def os_walk_def demo_env_def os_path_join_def)

lemma demo_key:
  "key demo_env ''d/u'' = None"
  "key demo_env ''d/a'' = Some (5, ''hello'')"
  "key demo_env ''d/b'' = Some (5, ''hello'')"
  "key demo_env ''d/c'' = Some (6, ''world!'')"
  by (simp_all add: key_def os_path_getsize_def fingerprint_def get_file_hash_eq faulty_def demo_env_def)



lemma distinct_count_one: "distinct xs \<Longrightarrow> x \<in> set xs \<Longrightarrow> count_list xs x = 1"
  by (induction xs) auto

lemma index_of_start: "index_of (scan_start directory) = Map.empty"
  by (simp add: scan_start_def index_of_def lookup_def fun_eq_iff)

lemma scan_duplicates: "find_duplicate_files e directory = emitted e Map.empty (walk_paths e directory)"
  unfolding find_duplicate_files_def scan_walk foldl_scan_duplicates index_of_start
  by (simp add: scan_start_def)

lemma scan_lookup_Some:
  "lookup (scan e directory) s (Some h) = find (\<lambda>p. key e p = Some (s, h)) (walk_paths e directory)"
proof -
  have "lookup (scan e directory) s (Some h) = index_of (scan e directory) (s, h)"
    by (simp add: index_of_def)
  also have "\<dots> = indexed e Map.empty (walk_paths e directory) (s, h)"
    unfolding scan_walk foldl_scan_index index_of_start ..
  finally show ?thesis by (simp add: indexed_eq)
qed

lemma foldl_lookup_None:
  "lookup (foldl (scan_file e) st ps) s None = Some q \<Longrightarrow>
     lookup st s None = Some q \<or>
     (q \<in> set ps \<and> os_path_getsize e q = Inr s \<and> fingerprint e q = None)"
proof (induction ps arbitrary: st)
  case Nil
  then show ?case by simp
next
  case (Cons p ps)
  from Cons.IH [of "scan_file e st p"] Cons.prems
  have "lookup (scan_file e st p) s None = Some q \<or>
     (q \<in> set ps \<and> os_path_getsize e q = Inr s \<and> fingerprint e q = None)" by simp
  then show ?case by (auto simp: scan_file_lookup_None split: if_splits)
qed

lemma scan_lookup_None:
  "lookup (scan e directory) s None = Some q \<Longrightarrow>
     q \<in> set (walk_paths e directory) \<and> os_path_getsize e q = Inr s \<and> fingerprint e q = None"
  using foldl_lookup_None [of e "scan_start directory" "walk_paths e directory" s q]
  by (simp add: scan_walk) (simp add: scan_start_def lookup_def)





lemma key_size: "key e p = Some (s, h) \<Longrightarrow> os_path_getsize e p = Inr s"
  by (auto simp: key_def split: sum.splits option.splits)

lemma key_fingerprint: "key e p = Some (s, h) \<Longrightarrow> fingerprint e p = Some h"
  by (auto simp: key_def split: sum.splits option.splits)

lemma key_iff:
  "key e p = Some (s, h) \<longleftrightarrow> os_path_getsize e p = Inr s \<and> fingerprint e p = Some h"
  by (auto simp: key_def split: sum.splits option.splits)

lemma pair_keys:
  assumes "(d, orig) \<in> set (find_duplicate_files e directory)"
  shows "\<exists>s h. key e d = Some (s, h) \<and> key e orig = Some (s, h)
           \<and> d \<in> set (walk_paths e directory) \<and> orig \<in> set (walk_paths e directory)
           \<and> lookup (scan e directory) s (Some h) = Some orig"
proof -
  from assms have m: "(d, orig) \<in> set (emitted e Map.empty (walk_paths e directory))"
    by (simp add: scan_duplicates)
  from emitted_keys [OF m] obtain k where
    k: "key e d = Some k" "indexed e Map.empty (walk_paths e directory) k = Some orig" by blast
  obtain s h where sh: "k = (s, h)" by (cases k)
  from k sh have f: "find (\<lambda>p. key e p = Some (s, h)) (walk_paths e directory) = Some orig"
    by (simp add: indexed_eq)
  from find_key [OF f] have "orig \<in> set (walk_paths e directory)" "key e orig = Some (s, h)"
    by simp_all
  moreover have "d \<in> set (walk_paths e directory)"
    using m emitted_fst_subset by force
  ultimately show ?thesis using k sh f by (auto simp: scan_lookup_Some)
qed

lemma find_hd_filter: "filter P xs \<noteq> [] \<Longrightarrow> find P xs = Some (hd (filter P xs))"
  by (induction xs) auto

lemma content_fingerprint:
  "content_of e p = Some c \<Longrightarrow> fingerprint e p = Some (digest_of e ''sha256'' c)"
  by (simp add: fingerprint_eq)

lemma group_key:
  assumes cf: "collision_free e directory"
      and g: "g \<in> set (content_group e directory s c)"
      and d: "d \<in> set (walk_paths e directory)"
  shows "d \<in> set (content_group e directory s c)
           \<longleftrightarrow> key e d = Some (s, digest_of e ''sha256'' c)"
proof
  assume "d \<in> set (content_group e directory s c)"
  then show "key e d = Some (s, digest_of e ''sha256'' c)"
    by (simp add: content_group_def key_iff content_fingerprint)
next
  assume k: "key e d = Some (s, digest_of e ''sha256'' c)"
  from g have gw: "g \<in> set (walk_paths e directory)" and gc: "content_of e g = Some c"
    by (simp_all add: content_group_def)
  have "fingerprint e d = fingerprint e g"
    using k gc by (simp add: key_iff content_fingerprint)
  with cf d gw have "content_of e d = content_of e g"
    unfolding collision_free_def by blast
  with gc k d show "d \<in> set (content_group e directory s c)"
    by (simp add: content_group_def key_iff)
qed

lemma filter_group_eq:
  assumes cf: "collision_free e directory"
      and g: "g \<in> set (content_group e directory s c)"
  shows "content_group e directory s c
           = filter (\<lambda>p. key e p = Some (s, digest_of e ''sha256'' c)) (walk_paths e directory)"
proof -
  have "content_group e directory s c
          = filter (\<lambda>p. p \<in> set (content_group e directory s c)) (walk_paths e directory)"
    by (simp add: content_group_def) (metis (mono_tags, lifting) filter_cong)
  also have "\<dots> = filter (\<lambda>p. key e p = Some (s, digest_of e ''sha256'' c)) (walk_paths e directory)"
    using group_key [OF cf g] by (intro filter_cong) auto
  finally show ?thesis .
qed

lemma trio_walk: "walk_paths trio_env ''d'' = [''d/a'', ''d/x'', ''d/b'', ''d/c'']"
  by (simp add: walk_paths_def os_walk_def trio_env_def os_path_join_def)

lemma trio_content:
  "content_of trio_env ''d/a'' = Some ''hello''"
  "content_of trio_env ''d/x'' = Some ''world''"
  "content_of trio_env ''d/b'' = Some ''hello''"
  "content_of trio_env ''d/c'' = Some ''hello''"
  by (simp_all add: content_of_def read_all_def faulty_def trio_env_def)

lemma trio_size:
  "os_path_getsize trio_env ''d/a'' = Inr 5"
  "os_path_getsize trio_env ''d/x'' = Inr 5"
  "os_path_getsize trio_env ''d/b'' = Inr 5"
  "os_path_getsize trio_env ''d/c'' = Inr 5"
  by (simp_all add: os_path_getsize_def trio_env_def)

lemma trio_digest: "digest_of trio_env alg c = c"
  by (simp add: trio_env_def)

lemma trio_key:
  "key trio_env ''d/a'' = Some (5, ''hello'')"
  "key trio_env ''d/x'' = Some (5, ''world'')"
  "key trio_env ''d/b'' = Some (5, ''hello'')"
  "key trio_env ''d/c'' = Some (5, ''hello'')"
  by (simp_all add: key_iff trio_size fingerprint_eq trio_content trio_digest)

lemma trio_dups: "find_duplicate_files trio_env ''d'' = [(''d/b'', ''d/a''), (''d/c'', ''d/a'')]"
  by (simp add: scan_duplicates trio_walk trio_key)

lemma scan_prefix_walk: "scan e directory = scan_prefix e directory (walk_paths e directory)"
  by (simp add: scan_walk scan_prefix_def)

lemma scan_prefix_append:
  "scan_prefix e directory (xs @ ys) = foldl (scan_file e) (scan_prefix e directory xs) ys"
  by (simp add: scan_prefix_def)

lemma scan_prefix_duplicates:
  "duplicates (scan_prefix e directory xs) = emitted e Map.empty xs"
  by (simp add: scan_prefix_def foldl_scan_duplicates index_of_start) (simp add: scan_start_def)

lemma scan_prefix_index:
  "index_of (scan_prefix e directory xs) = indexed e Map.empty xs"
  by (simp add: scan_prefix_def foldl_scan_index index_of_start)

lemma scan_file_bucket:
  "file_hashes st s \<noteq> None \<or> os_path_getsize e p = Inr s \<Longrightarrow>
     file_hashes (scan_file e st p) s \<noteq> None"
  by (auto simp: scan_file_def split: sum.splits option.splits prod.splits)

lemma foldl_scan_bucket:
  "file_hashes st s \<noteq> None \<or> (\<exists>x \<in> set ps. os_path_getsize e x = Inr s) \<Longrightarrow>
     file_hashes (foldl (scan_file e) st ps) s \<noteq> None"
proof (induction ps arbitrary: st)
  case Nil
  then show ?case by simp
next
  case (Cons p ps)
  have "file_hashes (scan_file e st p) s \<noteq> None \<or> (\<exists>x \<in> set ps. os_path_getsize e x = Inr s)"
    using Cons.prems scan_file_bucket [of st s e p] by auto
  from Cons.IH [OF this] show ?case by simp
qed

lemma scan_file_insert:
  assumes "key e q = Some (s, hq)" "file_hashes st s = Some bucket" "bucket (Some hq) = None"
  shows "file_hashes (scan_file e st q) = (file_hashes st)(s \<mapsto> bucket(Some hq \<mapsto> q))
           \<and> duplicates (scan_file e st q) = duplicates st"
  using assms
  by (auto simp: scan_file_def key_def fingerprint_def split: sum.splits option.splits prod.splits)

lemma find_None_iff: "find P xs = None \<longleftrightarrow> (\<forall>x \<in> set xs. \<not> P x)"
  by (induction xs) auto

lemma find_first:
  "\<forall>x \<in> set xs. \<not> P x \<Longrightarrow> P q \<Longrightarrow> find P (xs @ q # ys) = Some q"
  by (induction xs) auto

lemma key_None_not_paired:
  assumes "key e p = None"
  shows "p \<notin> fst ` set (find_duplicate_files e directory)
       \<and> p \<notin> snd ` set (find_duplicate_files e directory)"
proof -
  have "key e d \<noteq> None \<and> key e orig \<noteq> None"
    if "(d, orig) \<in> set (find_duplicate_files e directory)" for d orig
    using pair_keys [OF that] by auto
  with assms show ?thesis by force
qed

lemma failed_events:
  assumes "os_path_getsize e p = Inr s" "fingerprint e p = None"
  shows "\<exists>err. file_events e p = [OpenRb p, Print (ReadError err)]"
  using assms
  by (auto simp: file_events_def fingerprint_def get_file_hash_eq split: sum.splits if_splits)

text \<open>The definitions a run of the disposition loop unfolds to.\<close>

lemmas manage_defs =
  manage_duplicate_files_def dispose_pair_def print_msgs_def os_remove_def os_makedirs_def
  os_rename_def shutil_move_def os_path_exists_def datetime_now_strftime_def os_path_join_def
  os_path_basename_def final_world_def raised_def Let_def

lemma trio_delete:
  "files (final_world (manage_duplicate_files trio_world
            [(''d/b'', ''d/a''), (''d/c'', ''d/a'')] ''delete''))
     = {''d/x'', ''d/b'', ''d/c''}"
  by (auto simp: manage_defs trio_world_def)

lemma dispose_pair_delete:
  "\<exists>w'. dispose_pair w ''delete'' i path1 path2 = Inr w'
        \<and> dirs w' = dirs w \<and> locked w' = locked w
        \<and> files w' \<subseteq> files w \<and> files w - {path2} \<subseteq> files w'"
  by (auto simp: dispose_pair_def print_msgs_def os_remove_def Let_def split: sum.splits)

lemma dispose_loop_delete:
  "\<exists>w'. dispose_loop w ''delete'' i ps = Inr w'
        \<and> dirs w' = dirs w \<and> locked w' = locked w
        \<and> files w' \<subseteq> files w \<and> files w - snd ` set ps \<subseteq> files w'"
proof (induction ps arbitrary: w i)
  case Nil
  then show ?case by simp
next
  case (Cons pr ps)
  obtain path1 path2 where pr: "pr = (path1, path2)" by (cases pr)
  from dispose_pair_delete [of w i path1 path2] obtain w1 where
    w1: "dispose_pair w ''delete'' i path1 path2 = Inr w1"
        "dirs w1 = dirs w" "locked w1 = locked w"
        "files w1 \<subseteq> files w" "files w - {path2} \<subseteq> files w1" by blast
  from Cons.IH [of w1 "i + 1"] obtain w' where
    w': "dispose_loop w1 ''delete'' (i + 1) ps = Inr w'"
        "dirs w' = dirs w1" "locked w' = locked w1"
        "files w' \<subseteq> files w1" "files w1 - snd ` set ps \<subseteq> files w'" by blast
  have "dispose_loop w ''delete'' i (pr # ps) = Inr w'"
    using pr w1(1) w'(1) by simp
  moreover have "files w - snd ` set (pr # ps) \<subseteq> files w'"
    using pr w1(5) w'(5) by auto
  ultimately show ?case using w1 w' by auto
qed

lemma dispose_loop_report:
  "action \<noteq> ''delete'' \<Longrightarrow> action \<noteq> ''move'' \<Longrightarrow>
     \<exists>w'. dispose_loop w action i ps = Inr w'
        \<and> files w' = files w \<and> dirs w' = dirs w"
proof (induction ps arbitrary: w i)
  case Nil
  then show ?case by simp
next
  case (Cons pr ps)
  obtain path1 path2 where pr: "pr = (path1, path2)" by (cases pr)
  let ?w1 = "print_msgs w [PairHeader (i + 1), OriginalLabel path1, DuplicateLabel path2]"
  have s: "dispose_pair w action i path1 path2 = Inr ?w1"
    using Cons.prems by (simp add: dispose_pair_def Let_def)
  from Cons.IH [OF Cons.prems, of ?w1 "i + 1"] obtain w' where
    "dispose_loop ?w1 action (i + 1) ps = Inr w'" "files w' = files ?w1" "dirs w' = dirs ?w1"
    by blast
  with pr s show ?case by (simp add: print_msgs_def)
qed

section \<open>The claims\<close>

subsection \<open>The fingerprint computation returns a digest or a failure value\<close>



subsection \<open>The size gate\<close>




subsection \<open>A group of identical files\<close>

text \<open>
  Claim C2. Take the files of the walk that have the same size and read back as the same
  bytes, in walk order, on a walk where the digest separates contents. For a group of
  \<open>N\<close> such files the detector emits exactly \<open>N - 1\<close> pairs whose duplicate side is in
  the group: one for each file after the first, in discovery order, each with the first
  file of the group as its original. At the end of the scan the index still holds that
  first file under the group's size and fingerprint: no later file replaced it.
\<close>

theorem identical_group_pairs:
  assumes "collision_free e directory"
  shows "filter (\<lambda>(d, orig). d \<in> set (content_group e directory s c))
             (find_duplicate_files e directory)
           = map (\<lambda>d. (d, hd (content_group e directory s c))) (tl (content_group e directory s c))
       \<and> length (filter (\<lambda>(d, orig). d \<in> set (content_group e directory s c))
             (find_duplicate_files e directory))
           = length (content_group e directory s c) - 1
       \<and> (content_group e directory s c \<noteq> [] \<longrightarrow>
            lookup (scan e directory) s (Some (digest_of e ''sha256'' c))
              = Some (hd (content_group e directory s c)))"
proof (cases "content_group e directory s c = []")
  case True
  then show ?thesis by simp
next
  case False
  then obtain g where g: "g \<in> set (content_group e directory s c)"
    by (cases "content_group e directory s c") auto
  let ?k = "(s, digest_of e ''sha256'' c)"
  let ?G = "content_group e directory s c"
  have G: "?G = filter (\<lambda>p. key e p = Some ?k) (walk_paths e directory)"
    by (rule filter_group_eq [OF assms g])
  have "filter (\<lambda>(d, orig). d \<in> set ?G) (find_duplicate_files e directory)
          = filter (\<lambda>(d, orig). key e d = Some ?k) (find_duplicate_files e directory)"
  proof (intro filter_cong refl)
    fix x assume x: "x \<in> set (find_duplicate_files e directory)"
    obtain d orig where xd: "x = (d, orig)" by (cases x)
    from x xd pair_keys [of d orig e directory] have "d \<in> set (walk_paths e directory)" by blast
    from group_key [OF assms g this] xd
    show "(case x of (d, orig) \<Rightarrow> d \<in> set ?G) = (case x of (d, orig) \<Rightarrow> key e d = Some ?k)"
      by simp
  qed
  also have "\<dots> = map (\<lambda>d. (d, hd ?G)) (tl ?G)"
    unfolding scan_duplicates emitted_group G [symmetric] by simp
  finally have pairs: "filter (\<lambda>(d, orig). d \<in> set ?G) (find_duplicate_files e directory)
          = map (\<lambda>d. (d, hd ?G)) (tl ?G)" .
  have "find (\<lambda>p. key e p = Some ?k) (walk_paths e directory) = Some (hd ?G)"
    using False unfolding G by (rule find_hd_filter)
  then have "lookup (scan e directory) s (Some (digest_of e ''sha256'' c)) = Some (hd ?G)"
    by (simp add: scan_lookup_Some)
  with pairs show ?thesis by simp
qed

text \<open>
  The theorem on the directory of three identical files: two pairs, both with \<open>d/a\<close>
  as the original.
\<close>

theorem identical_group_pairs_witness:
  "collision_free trio_env ''d''
   \<and> content_group trio_env ''d'' 5 ''hello'' = [''d/a'', ''d/b'', ''d/c'']
   \<and> filter (\<lambda>(d, orig). d \<in> set (content_group trio_env ''d'' 5 ''hello''))
        (find_duplicate_files trio_env ''d'') = [(''d/b'', ''d/a''), (''d/c'', ''d/a'')]
   \<and> lookup (scan trio_env ''d'') 5 (Some ''hello'') = Some ''d/a''"
proof -
  have cf: "collision_free trio_env ''d''"
    by (simp add: collision_free_def trio_walk fingerprint_eq trio_content trio_digest)
  have g: "content_group trio_env ''d'' 5 ''hello'' = [''d/a'', ''d/b'', ''d/c'']"
    by (simp add: content_group_def trio_walk trio_size trio_content)
  show ?thesis
    using identical_group_pairs [OF cf, of 5 "''hello''"] cf g by (simp add: trio_digest)
qed

subsection \<open>Equal size, different fingerprints\<close>

text \<open>
  Claim C4. Let \<open>p\<close> and \<open>q\<close> be two files of equal size whose fingerprints differ,
  \<open>p\<close> discovered before \<open>q\<close>. The detector produces no duplicate pair between them,
  in either order. When the fingerprint of \<open>q\<close> matches no entry of the bucket (no
  earlier file has its size and fingerprint), the round of \<open>q\<close> finds the bucket of
  the size, emits no pair and inserts \<open>q\<close> into that bucket under its fingerprint,
  keeping the other entries; \<open>q\<close> is still the entry of its fingerprint when the scan
  ends.
\<close>

theorem different_fingerprints_not_paired:
  assumes walk: "walk_paths e directory = xs @ q # ys"
      and p: "p \<in> set xs"
      and kp: "key e p = Some (s, hp)"
      and kq: "key e q = Some (s, hq)"
      and ne: "hp \<noteq> hq"
  shows "(q, p) \<notin> set (find_duplicate_files e directory)
       \<and> (p, q) \<notin> set (find_duplicate_files e directory)
       \<and> ((\<forall>x \<in> set xs. key e x \<noteq> Some (s, hq)) \<longrightarrow>
            (\<exists>bucket. file_hashes (scan_prefix e directory xs) s = Some bucket
               \<and> bucket (Some hq) = None
               \<and> file_hashes (scan_file e (scan_prefix e directory xs) q)
                   = (file_hashes (scan_prefix e directory xs))(s \<mapsto> bucket(Some hq \<mapsto> q))
               \<and> duplicates (scan_file e (scan_prefix e directory xs) q)
                   = duplicates (scan_prefix e directory xs))
            \<and> lookup (scan e directory) s (Some hq) = Some q)"
proof -
  have np: "(d, orig) \<in> set (find_duplicate_files e directory) \<Longrightarrow> key e d = key e orig" for d orig
    using pair_keys [of d orig e directory] by auto
  have a: "(q, p) \<notin> set (find_duplicate_files e directory)"
    using np [of q p] kp kq ne by auto
  have b: "(p, q) \<notin> set (find_duplicate_files e directory)"
    using np [of p q] kp kq ne by auto
  have c: "(\<exists>bucket. file_hashes (scan_prefix e directory xs) s = Some bucket
               \<and> bucket (Some hq) = None
               \<and> file_hashes (scan_file e (scan_prefix e directory xs) q)
                   = (file_hashes (scan_prefix e directory xs))(s \<mapsto> bucket(Some hq \<mapsto> q))
               \<and> duplicates (scan_file e (scan_prefix e directory xs) q)
                   = duplicates (scan_prefix e directory xs))
            \<and> lookup (scan e directory) s (Some hq) = Some q"
    if fresh: "\<forall>x \<in> set xs. key e x \<noteq> Some (s, hq)"
  proof -
    have "file_hashes (scan_prefix e directory xs) s \<noteq> None"
      unfolding scan_prefix_def
      using p key_size [OF kp] by (intro foldl_scan_bucket) auto
    then obtain bucket where bk: "file_hashes (scan_prefix e directory xs) s = Some bucket"
      by auto
    have "index_of (scan_prefix e directory xs) (s, hq) = None"
      using fresh by (simp add: scan_prefix_index indexed_eq find_None_iff)
    then have bn: "bucket (Some hq) = None"
      using bk by (simp add: index_of_def lookup_def)
    have "lookup (scan e directory) s (Some hq) = Some q"
      using fresh kq by (simp add: scan_lookup_Some walk find_first)
    with scan_file_insert [OF kq bk bn] bk bn show ?thesis by blast
  qed
  from a b c show ?thesis by blast
qed

text \<open>
  The theorem on the directory of three identical files and \<open>x\<close>: \<open>d/a\<close> and
  \<open>d/x\<close> have five bytes each and different fingerprints.
\<close>

theorem different_fingerprints_not_paired_witness:
  "walk_paths trio_env ''d'' = [''d/a''] @ ''d/x'' # [''d/b'', ''d/c'']
   \<and> key trio_env ''d/a'' = Some (5, ''hello'')
   \<and> key trio_env ''d/x'' = Some (5, ''world'')
   \<and> (''d/x'', ''d/a'') \<notin> set (find_duplicate_files trio_env ''d'')
   \<and> (''d/a'', ''d/x'') \<notin> set (find_duplicate_files trio_env ''d'')
   \<and> lookup (scan trio_env ''d'') 5 (Some ''world'') = Some ''d/x''"
proof -
  have w: "walk_paths trio_env ''d'' = [''d/a''] @ ''d/x'' # [''d/b'', ''d/c'']"
    by (simp add: trio_walk)
  have p: "''d/a'' \<in> set [''d/a'']" by simp
  have ne: "''hello'' \<noteq> ''world''" by simp
  have fresh: "\<forall>x \<in> set [''d/a'']. key trio_env x \<noteq> Some (5, ''world'')"
    by (simp add: trio_key)
  show ?thesis
    using different_fingerprints_not_paired [OF w p trio_key(1) trio_key(2) ne] fresh w
    by (simp add: trio_key)
qed

subsection \<open>A path whose fingerprint fails\<close>

text \<open>
  Claim C5, as the code has it. For every path whose size is read and whose fingerprint
  computation fails: the path is on neither side of any duplicate pair; the failure is
  printed once, in the round of that path; the scan continues, and the pairs it returns
  are the pairs of the same walk without that path. The path is not kept out of the
  index: its round stores it under the key \<^verbatim>\<open>None\<close> of its size bucket (lines 33 and
  35), an entry the test of line 30 never matches.
\<close>

theorem failed_fingerprint_never_paired:
  assumes walk: "walk_paths e directory = xs @ p # ys"
      and size: "os_path_getsize e p = Inr s"
      and fail: "fingerprint e p = None"
  shows "p \<notin> fst ` set (find_duplicate_files e directory)
       \<and> p \<notin> snd ` set (find_duplicate_files e directory)
       \<and> (\<exists>err. trace (scan e directory)
              = trace (scan_prefix e directory xs) @ [OpenRb p, Print (ReadError err)]
                  @ concat (map (file_events e) ys))
       \<and> find_duplicate_files e directory = duplicates (scan_prefix e directory (xs @ ys))
       \<and> lookup (scan_prefix e directory (xs @ [p])) s None = Some p"
proof -
  have k: "key e p = None" using size fail by (simp add: key_def)
  from failed_events [OF size fail] obtain err where
    ev: "file_events e p = [OpenRb p, Print (ReadError err)]" by blast
  have "trace (scan e directory)
          = trace (scan_prefix e directory xs) @ [OpenRb p, Print (ReadError err)]
              @ concat (map (file_events e) ys)"
    by (simp add: scan_prefix_walk walk scan_prefix_def foldl_scan_trace scan_file_trace ev)
  moreover have "find_duplicate_files e directory = duplicates (scan_prefix e directory (xs @ ys))"
    by (simp add: scan_duplicates walk scan_prefix_duplicates emitted_skip [OF k])
  moreover have "lookup (scan_prefix e directory (xs @ [p])) s None = Some p"
    by (simp add: scan_prefix_def scan_file_lookup_None size fail)
  ultimately show ?thesis using key_None_not_paired [OF k] by blast
qed

text \<open>
  The theorem on the demonstration directory, whose first file \<open>d/u\<close> cannot be
  opened: the pair of \<open>d/a\<close> and \<open>d/b\<close> is still found.
\<close>

theorem failed_fingerprint_never_paired_witness:
  "walk_paths demo_env ''d'' = [] @ ''d/u'' # [''d/a'', ''d/b'', ''d/c'']
   \<and> os_path_getsize demo_env ''d/u'' = Inr 5
   \<and> fingerprint demo_env ''d/u'' = None
   \<and> ''d/u'' \<notin> fst ` set (find_duplicate_files demo_env ''d'')
   \<and> ''d/u'' \<notin> snd ` set (find_duplicate_files demo_env ''d'')
   \<and> find_duplicate_files demo_env ''d'' = [(''d/b'', ''d/a'')]"
proof -
  have w: "walk_paths demo_env ''d'' = [] @ ''d/u'' # [''d/a'', ''d/b'', ''d/c'']"
    by (simp add: demo_walk)
  have s: "os_path_getsize demo_env ''d/u'' = Inr 5"
    by (simp add: os_path_getsize_def demo_env_def)
  have f: "fingerprint demo_env ''d/u'' = None"
    by (simp add: fingerprint_def get_file_hash_eq demo_env_def)
  have ev: "duplicates (scan_prefix demo_env ''d'' [''d/a'', ''d/b'', ''d/c'']) = [(''d/b'', ''d/a'')]"
    by (simp add: scan_prefix_duplicates demo_key)
  note t = failed_fingerprint_never_paired [OF w s f]
  from t have a: "''d/u'' \<notin> fst ` set (find_duplicate_files demo_env ''d'')"
    and b: "''d/u'' \<notin> snd ` set (find_duplicate_files demo_env ''d'')"
    by blast+
  from t have "find_duplicate_files demo_env ''d''
      = duplicates (scan_prefix demo_env ''d'' ([] @ [''d/a'', ''d/b'', ''d/c'']))"
    by blast
  then have c: "find_duplicate_files demo_env ''d'' = [(''d/b'', ''d/a'')]"
    using ev by simp
  show ?thesis by (intro conjI w s f a b c)
qed

text \<open>
  The claim as stated says that such a path is excluded from the index. After the scan
  of the demonstration directory the unreadable \<open>d/u\<close> is in the index, under the
  key \<^verbatim>\<open>None\<close> of the bucket of size five.
\<close>

theorem failed_fingerprint_is_indexed:
  "fingerprint demo_env ''d/u'' = None
   \<and> lookup (scan demo_env ''d'') 5 None = Some ''d/u''"
  by (simp add: fingerprint_def scan_def os_walk_def scan_start_def scan_file_def lookup_def
        os_path_join_def os_path_getsize_def get_file_hash_eq faulty_def demo_env_def)

subsection \<open>A root that is not a directory\<close>

text \<open>
  Claim C6, as the code has it. The code does not check the root. If the scan root does
  not exist or is not a directory, the walk yields nothing: the detector returns the
  empty list with an empty index, prints nothing but its start line, and the disposition
  that follows prints that there are no duplicates and returns. No error is reported.
\<close>

theorem invalid_root_scans_nothing:
  assumes "\<not> is_dir e directory"
  shows "find_duplicate_files e directory = []
       \<and> file_hashes (scan e directory) = Map.empty
       \<and> trace (scan e directory) = [Print (ScanStart directory)]
       \<and> manage_duplicate_files w (find_duplicate_files e directory) action
           = Inr (print_msgs w [NoDuplicates])"
  using assms
  by (simp add: find_duplicate_files_def scan_def os_walk_def scan_start_def
        manage_duplicate_files_def)

text \<open>The theorem at a root that is a regular file, \<open>d/a\<close> of the demonstration.\<close>

theorem invalid_root_scans_nothing_witness:
  "\<not> is_dir demo_env ''d/a''
   \<and> find_duplicate_files demo_env ''d/a'' = []
   \<and> trace (scan demo_env ''d/a'') = [Print (ScanStart ''d/a'')]"
proof -
  have h: "\<not> is_dir demo_env ''d/a''" by (simp add: demo_env_def)
  show ?thesis using invalid_root_scans_nothing [OF h] h by simp
qed

text \<open>
  The claim as stated says that the run fails with a fatal error before scanning. On a
  root that does not exist the scan returns normally, with no pair and no error line.
\<close>

theorem missing_root_completes_silently:
  "is_dir void_env ''nowhere'' = False
   \<and> find_duplicate_files void_env ''nowhere'' = []
   \<and> trace (scan void_env ''nowhere'') = [Print (ScanStart ''nowhere'')]"
  by (simp add: find_duplicate_files_def scan_def os_walk_def scan_start_def void_env_def)

subsection \<open>One role for each classified path\<close>

text \<open>
  Claim C10. On a walk that visits no path twice, every path whose size and fingerprint
  are both obtained plays exactly one role. Either it is in the index, under the key of
  its own size and fingerprint, and is the duplicate side of no pair; or it is the
  duplicate side of exactly one pair and is not in the index. In the index it stands
  under no other key. A path that is the original of some pair is in the index and is
  the duplicate side of no pair, so a file classified as a duplicate never serves as
  the original of another file.
\<close>

theorem one_role_per_path:
  assumes dist: "distinct (walk_paths e directory)"
      and p: "p \<in> set (walk_paths e directory)"
      and k: "key e p = Some (s, h)"
  shows "((lookup (scan e directory) s (Some h) = Some p
            \<and> p \<notin> fst ` set (find_duplicate_files e directory))
          \<or> (lookup (scan e directory) s (Some h) \<noteq> Some p
            \<and> count_list (map fst (find_duplicate_files e directory)) p = 1))
       \<and> (\<forall>s' k'. lookup (scan e directory) s' k' = Some p \<longrightarrow> s' = s \<and> k' = Some h)
       \<and> (p \<in> snd ` set (find_duplicate_files e directory)
            \<longrightarrow> lookup (scan e directory) s (Some h) = Some p
                \<and> p \<notin> fst ` set (find_duplicate_files e directory))"
proof -
  let ?ps = "walk_paths e directory"
  have ix: "lookup (scan e directory) s (Some h) = indexed e Map.empty ?ps (s, h)"
    by (simp add: scan_lookup_Some indexed_eq)
  have x: "(p \<in> fst ` set (find_duplicate_files e directory))
             \<noteq> (lookup (scan e directory) s (Some h) = Some p)"
    unfolding ix scan_duplicates
    by (rule emitted_xor_indexed [OF dist _ p k]) simp
  have d: "distinct (map fst (find_duplicate_files e directory))"
    unfolding scan_duplicates by (rule emitted_distinct [OF dist])
  have role: "(lookup (scan e directory) s (Some h) = Some p
            \<and> p \<notin> fst ` set (find_duplicate_files e directory))
          \<or> (lookup (scan e directory) s (Some h) \<noteq> Some p
            \<and> count_list (map fst (find_duplicate_files e directory)) p = 1)"
  proof (cases "lookup (scan e directory) s (Some h) = Some p")
    case True
    with x show ?thesis by simp
  next
    case False
    with x have "p \<in> set (map fst (find_duplicate_files e directory))" by simp
    from distinct_count_one [OF d this] False show ?thesis by simp
  qed
  have uniq: "s' = s \<and> k' = Some h" if l: "lookup (scan e directory) s' k' = Some p" for s' k'
  proof (cases k')
    case None
    with l scan_lookup_None [of e directory s' p] have "fingerprint e p = None" by simp
    with key_fingerprint [OF k] show ?thesis by simp
  next
    case (Some h')
    with l have "find (\<lambda>q. key e q = Some (s', h')) ?ps = Some p"
      by (simp add: scan_lookup_Some)
    from find_key [OF this] k Some show ?thesis by simp
  qed
  have orig: "lookup (scan e directory) s (Some h) = Some p
                \<and> p \<notin> fst ` set (find_duplicate_files e directory)"
    if "p \<in> snd ` set (find_duplicate_files e directory)"
  proof -
    from that obtain d where "(d, p) \<in> set (find_duplicate_files e directory)" by force
    from pair_keys [OF this] k have "lookup (scan e directory) s (Some h) = Some p" by auto
    with x show ?thesis by simp
  qed
  from role uniq orig show ?thesis by blast
qed

text \<open>
  The theorem on the directory of three identical files: \<open>d/a\<close> is indexed and never
  a duplicate; \<open>d/b\<close> is a duplicate exactly once and never an original.
\<close>

theorem one_role_per_path_witness:
  "distinct (walk_paths trio_env ''d'')
   \<and> lookup (scan trio_env ''d'') 5 (Some ''hello'') = Some ''d/a''
   \<and> ''d/a'' \<notin> fst ` set (find_duplicate_files trio_env ''d'')
   \<and> count_list (map fst (find_duplicate_files trio_env ''d'')) ''d/b'' = 1
   \<and> ''d/b'' \<notin> snd ` set (find_duplicate_files trio_env ''d'')"
proof -
  have dist: "distinct (walk_paths trio_env ''d'')" by (simp add: trio_walk)
  have pa: "''d/a'' \<in> set (walk_paths trio_env ''d'')" by (simp add: trio_walk)
  have pb: "''d/b'' \<in> set (walk_paths trio_env ''d'')" by (simp add: trio_walk)
  note ta = one_role_per_path [OF dist pa trio_key(1)]
  note tb = one_role_per_path [OF dist pb trio_key(3)]
  have la: "lookup (scan trio_env ''d'') 5 (Some ''hello'') = Some ''d/a''"
    by (simp add: scan_lookup_Some trio_walk trio_key)
  from ta la have a: "''d/a'' \<notin> fst ` set (find_duplicate_files trio_env ''d'')" by auto
  from tb la have b: "count_list (map fst (find_duplicate_files trio_env ''d'')) ''d/b'' = 1"
    by auto
  from tb la have c: "''d/b'' \<notin> snd ` set (find_duplicate_files trio_env ''d'')" by auto
  show ?thesis by (intro conjI dist la a b c)
qed

subsection \<open>Which side of a pair the disposition acts on\<close>

text \<open>
  Claim C1 says that delete and quarantine act on the later-discovered file of a pair and
  never on the recorded original. The detector emits each pair as (new path, indexed
  path), while the loop of \<^verbatim>\<open>manage_duplicate_files\<close> reads it as (original, duplicate)
  and acts on the second component. On the demonstration directory the pair is
  \<open>(d/b, d/a)\<close> with \<open>d/a\<close> the entry of the index; deleting removes \<open>d/a\<close> and
  keeps \<open>d/b\<close>, moving takes \<open>d/a\<close> to the holding directory, and the printed labels
  call \<open>d/b\<close> the original. On the directory of three identical files both pairs name
  \<open>d/a\<close> second: deleting removes \<open>d/a\<close> and leaves the two copies \<open>d/b\<close> and
  \<open>d/c\<close>.
\<close>

theorem delete_removes_recorded_original:
  "find_duplicate_files demo_env ''d'' = [(''d/b'', ''d/a'')]
   \<and> lookup (scan demo_env ''d'') 5 (Some ''hello'') = Some ''d/a''
   \<and> files (final_world (manage_duplicate_files demo_world [(''d/b'', ''d/a'')] ''delete''))
        = {''d/u'', ''d/b'', ''d/c''}
   \<and> files (final_world (manage_duplicate_files demo_world [(''d/b'', ''d/a'')] ''move''))
        = {''d/u'', ''d/b'', ''d/c'', ''duplicates_20240101_120000/a''}
   \<and> out (final_world (manage_duplicate_files demo_world [(''d/b'', ''d/a'')] ''delete''))
        = [FoundPairs 1, PairHeader 1, OriginalLabel ''d/b'', DuplicateLabel ''d/a'', Deleted ''d/a'']
   \<and> find_duplicate_files trio_env ''d'' = [(''d/b'', ''d/a''), (''d/c'', ''d/a'')]
   \<and> files (final_world (manage_duplicate_files trio_world
              [(''d/b'', ''d/a''), (''d/c'', ''d/a'')] ''delete''))
        = {''d/x'', ''d/b'', ''d/c''}"
proof -
  have a: "find_duplicate_files demo_env ''d'' = [(''d/b'', ''d/a'')]"
    by (simp add: scan_duplicates demo_walk demo_key)
  have b: "lookup (scan demo_env ''d'') 5 (Some ''hello'') = Some ''d/a''"
    by (simp add: scan_lookup_Some demo_walk demo_key)
  have c: "files (final_world (manage_duplicate_files demo_world [(''d/b'', ''d/a'')] ''delete''))
        = {''d/u'', ''d/b'', ''d/c''}"
    by (auto simp: manage_defs demo_world_def)
  have d: "files (final_world (manage_duplicate_files demo_world [(''d/b'', ''d/a'')] ''move''))
        = {''d/u'', ''d/b'', ''d/c'', ''duplicates_20240101_120000/a''}"
    by (auto simp: manage_defs demo_world_def)
  have e: "out (final_world (manage_duplicate_files demo_world [(''d/b'', ''d/a'')] ''delete''))
        = [FoundPairs 1, PairHeader 1, OriginalLabel ''d/b'', DuplicateLabel ''d/a'', Deleted ''d/a'']"
    by (simp add: manage_defs demo_world_def)
  show ?thesis by (intro conjI a b c d e trio_dups trio_delete)
qed

subsection \<open>The holding directory\<close>

text \<open>
  Claim C7 says that quarantine creates one holding directory per run and reuses it. The
  loop reads the clock anew for every pair and names the directory after that reading;
  when the clock moves on between two pairs, a run creates two directories and the two
  files land apart.
\<close>

theorem holding_directory_per_clock_reading:
  "dirs (final_world (manage_duplicate_files ticking_world
            [(''d/b'', ''d/a''), (''d/y'', ''d/x'')] ''move''))
     = {''d'', ''duplicates_20240101_120000'', ''duplicates_20240101_120001''}
   \<and> files (final_world (manage_duplicate_files ticking_world
            [(''d/b'', ''d/a''), (''d/y'', ''d/x'')] ''move''))
     = {''d/b'', ''d/y'', ''duplicates_20240101_120000/a'', ''duplicates_20240101_120001/x''}
   \<and> raised (manage_duplicate_files ticking_world
            [(''d/b'', ''d/a''), (''d/y'', ''d/x'')] ''move'') = None"
proof -
  have a: "dirs (final_world (manage_duplicate_files ticking_world
            [(''d/b'', ''d/a''), (''d/y'', ''d/x'')] ''move''))
     = {''d'', ''duplicates_20240101_120000'', ''duplicates_20240101_120001''}"
    by (auto simp: manage_defs ticking_world_def)
  have b: "files (final_world (manage_duplicate_files ticking_world
            [(''d/b'', ''d/a''), (''d/y'', ''d/x'')] ''move''))
     = {''d/b'', ''d/y'', ''duplicates_20240101_120000/a'', ''duplicates_20240101_120001/x''}"
    by (auto simp: manage_defs ticking_world_def)
  have c: "raised (manage_duplicate_files ticking_world
            [(''d/b'', ''d/a''), (''d/y'', ''d/x'')] ''move'') = None"
    by (simp add: manage_defs ticking_world_def)
  show ?thesis by (intro conjI a b c)
qed

subsection \<open>A failure on one pair\<close>

text \<open>
  Claim C8 says that no failure to delete or move the file of one pair aborts the batch.
  The delete branch catches \<^verbatim>\<open>OSError\<close>; the move branch catches only
  \<^verbatim>\<open>shutil.Error\<close>. When the file of the first pair has disappeared, moving raises
  \<^verbatim>\<open>FileNotFoundError\<close> out of the function: nothing is printed for that failure and the
  second pair is never reached. On the same input deleting records the failure and goes
  on to the second pair.
\<close>

theorem move_failure_aborts_batch:
  "raised (manage_duplicate_files gone_world [(''d/b'', ''d/a''), (''d/y'', ''d/x'')] ''move'')
     = Some FileNotFoundError
   \<and> files (final_world (manage_duplicate_files gone_world
             [(''d/b'', ''d/a''), (''d/y'', ''d/x'')] ''move''))
     = {''d/b'', ''d/x'', ''d/y''}
   \<and> out (final_world (manage_duplicate_files gone_world
             [(''d/b'', ''d/a''), (''d/y'', ''d/x'')] ''move''))
     = [FoundPairs 2, PairHeader 1, OriginalLabel ''d/b'', DuplicateLabel ''d/a'']
   \<and> raised (manage_duplicate_files gone_world [(''d/b'', ''d/a''), (''d/y'', ''d/x'')] ''delete'')
     = None
   \<and> files (final_world (manage_duplicate_files gone_world
             [(''d/b'', ''d/a''), (''d/y'', ''d/x'')] ''delete''))
     = {''d/b'', ''d/y''}"
proof -
  have a: "raised (manage_duplicate_files gone_world [(''d/b'', ''d/a''), (''d/y'', ''d/x'')] ''move'')
     = Some FileNotFoundError"
    by (simp add: manage_defs gone_world_def)
  have b: "files (final_world (manage_duplicate_files gone_world
             [(''d/b'', ''d/a''), (''d/y'', ''d/x'')] ''move''))
     = {''d/b'', ''d/x'', ''d/y''}"
    by (simp add: manage_defs gone_world_def)
  have c: "out (final_world (manage_duplicate_files gone_world
             [(''d/b'', ''d/a''), (''d/y'', ''d/x'')] ''move''))
     = [FoundPairs 2, PairHeader 1, OriginalLabel ''d/b'', DuplicateLabel ''d/a'']"
    by (simp add: manage_defs gone_world_def)
  have d: "raised (manage_duplicate_files gone_world [(''d/b'', ''d/a''), (''d/y'', ''d/x'')] ''delete'')
     = None"
    by (simp add: manage_defs gone_world_def)
  have e: "files (final_world (manage_duplicate_files gone_world
             [(''d/b'', ''d/a''), (''d/y'', ''d/x'')] ''delete''))
     = {''d/b'', ''d/y''}"
    by (auto simp: manage_defs gone_world_def)
  show ?thesis by (intro conjI a b c d e)
qed

subsection \<open>Further properties of the disposition loop\<close>

text \<open>
  Deleting never raises: every failure of \<^verbatim>\<open>os.remove\<close> is caught, so the loop
  reaches every pair. It creates no directory, and the only files it can remove are the
  second components of the pairs.
\<close>

theorem delete_never_raises:
  "raised (manage_duplicate_files w ps ''delete'') = None
   \<and> dirs (final_world (manage_duplicate_files w ps ''delete'')) = dirs w
   \<and> files (final_world (manage_duplicate_files w ps ''delete'')) \<subseteq> files w
   \<and> files w - snd ` set ps \<subseteq> files (final_world (manage_duplicate_files w ps ''delete''))"
proof (cases "ps = []")
  case True
  then show ?thesis
    by (simp add: manage_duplicate_files_def raised_def final_world_def print_msgs_def)
next
  case False
  from dispose_loop_delete [of "print_msgs w [FoundPairs (length ps)]" 0 ps]
  obtain w' where
    "dispose_loop (print_msgs w [FoundPairs (length ps)]) ''delete'' 0 ps = Inr w'"
    "dirs w' = dirs w" "files w' \<subseteq> files w" "files w - snd ` set ps \<subseteq> files w'"
    by (auto simp: print_msgs_def)
  with False show ?thesis
    by (simp add: manage_duplicate_files_def raised_def final_world_def)
qed

text \<open>Deleting on the batch whose first file has disappeared.\<close>

theorem delete_never_raises_witness:
  "raised (manage_duplicate_files gone_world [(''d/b'', ''d/a''), (''d/y'', ''d/x'')] ''delete'') = None
   \<and> dirs (final_world (manage_duplicate_files gone_world
              [(''d/b'', ''d/a''), (''d/y'', ''d/x'')] ''delete'')) = {''d''}"
  using delete_never_raises [of gone_world "[(''d/b'', ''d/a''), (''d/y'', ''d/x'')]"]
  by (simp add: gone_world_def)

text \<open>
  Under every action other than \<^verbatim>\<open>'delete'\<close> and \<^verbatim>\<open>'move'\<close> (the default
  \<^verbatim>\<open>'list'\<close> among them) the loop only prints: it returns, and the files and
  directories are what they were.
\<close>

theorem report_changes_nothing:
  assumes "action \<noteq> ''delete''" "action \<noteq> ''move''"
  shows "raised (manage_duplicate_files w ps action) = None
       \<and> files (final_world (manage_duplicate_files w ps action)) = files w
       \<and> dirs (final_world (manage_duplicate_files w ps action)) = dirs w"
proof (cases "ps = []")
  case True
  then show ?thesis
    by (simp add: manage_duplicate_files_def raised_def final_world_def print_msgs_def)
next
  case False
  from dispose_loop_report [OF assms, of "print_msgs w [FoundPairs (length ps)]" 0 ps]
  obtain w' where
    "dispose_loop (print_msgs w [FoundPairs (length ps)]) action 0 ps = Inr w'"
    "files w' = files w" "dirs w' = dirs w"
    by (auto simp: print_msgs_def)
  with False show ?thesis
    by (simp add: manage_duplicate_files_def raised_def final_world_def)
qed

text \<open>Listing the pair of the demonstration directory.\<close>

theorem report_changes_nothing_witness:
  "''list'' \<noteq> ''delete'' \<and> ''list'' \<noteq> ''move''
   \<and> raised (manage_duplicate_files demo_world [(''d/b'', ''d/a'')] ''list'') = None
   \<and> files (final_world (manage_duplicate_files demo_world [(''d/b'', ''d/a'')] ''list''))
        = {''d/u'', ''d/a'', ''d/b'', ''d/c''}"
proof -
  have a: "''list'' \<noteq> ''delete''" and b: "''list'' \<noteq> ''move''" by simp_all
  show ?thesis
    using report_changes_nothing [OF a b, of demo_world "[(''d/b'', ''d/a'')]"]
    by (simp add: demo_world_def)
qed

end
